theory Spec2Isabelle
  imports Complex_Main "HOL-Library.Product_Lexorder"
begin

section \<open>Characters and the string primitives of the pipeline\<close>

text \<open>
  The pipeline of \<^verbatim>\<open>rag_pipeline.py\<close> works on Python strings. A string is modelled as a
  \<^typ>\<open>string\<close> whose characters are code points below 256 (Latin-1), read through
  \<^term>\<open>of_char\<close>. The character classes are those of the Python library on that range:
  \<^verbatim>\<open>str.isspace\<close> (used by \<^verbatim>\<open>str.split()\<close>, \<^verbatim>\<open>str.strip()\<close> and the pattern \<^verbatim>\<open>\s\<close>),
  \<^verbatim>\<open>string.punctuation\<close>, the decimal digits of \<^verbatim>\<open>\d\<close> and the case mapping of
  \<^verbatim>\<open>str.lower\<close>.
\<close>

definition is_space :: "char \<Rightarrow> bool" where
  "is_space c =
     (let n = (of_char c :: nat)
      in (9 \<le> n \<and> n \<le> 13) \<or> (28 \<le> n \<and> n \<le> 32) \<or> n = 133 \<or> n = 160)"

definition is_punct :: "char \<Rightarrow> bool" where
  "is_punct c =
     (let n = (of_char c :: nat)
      in (33 \<le> n \<and> n \<le> 47) \<or> (58 \<le> n \<and> n \<le> 64) \<or> (91 \<le> n \<and> n \<le> 96) \<or>
         (123 \<le> n \<and> n \<le> 126))"

definition is_digit :: "char \<Rightarrow> bool" where
  "is_digit c = (let n = (of_char c :: nat) in 48 \<le> n \<and> n \<le> 57)"

definition is_upper :: "char \<Rightarrow> bool" where
  "is_upper c =
     (let n = (of_char c :: nat)
      in (65 \<le> n \<and> n \<le> 90) \<or> (192 \<le> n \<and> n \<le> 214) \<or> (216 \<le> n \<and> n \<le> 222))"

definition lower_char :: "char \<Rightarrow> char" where
  "lower_char c = (if is_upper c then char_of ((of_char c :: nat) + 32) else c)"

definition lower :: "string \<Rightarrow> string" where
  "lower s = map lower_char s"

text \<open>\<^verbatim>\<open>s.split()\<close>: the maximal runs of non-whitespace characters, in order.\<close>

function py_split :: "string \<Rightarrow> string list" where
  "py_split [] = []"
| "py_split (c # cs) =
     (if is_space c then py_split cs
      else (c # takeWhile (\<lambda>x. \<not> is_space x) cs) # py_split (dropWhile (\<lambda>x. \<not> is_space x) cs))"
  by pat_completeness auto
termination
  by (relation "measure length") (auto simp: less_Suc_eq_le length_dropWhile_le)

text \<open>\<^verbatim>\<open>' '.join(ws)\<close>.\<close>

fun join_sp :: "string list \<Rightarrow> string" where
  "join_sp [] = []"
| "join_sp [w] = w"
| "join_sp (w # v # ws) = w @ CHR '' '' # join_sp (v # ws)"

text \<open>\<^verbatim>\<open>s.strip(chars)\<close> for the character class \<open>P\<close>; \<^verbatim>\<open>s.strip()\<close> strips whitespace.\<close>

definition strip_chars :: "(char \<Rightarrow> bool) \<Rightarrow> string \<Rightarrow> string" where
  "strip_chars P s = rev (dropWhile P (rev (dropWhile P s)))"

definition strip :: "string \<Rightarrow> string" where
  "strip s = strip_chars is_space s"

section \<open>Text normalizer\<close>

text \<open>
  \<^verbatim>\<open>preprocess_text\<close>: lowercase, delete every character of \<^verbatim>\<open>string.punctuation\<close>
  (\<^verbatim>\<open>str.translate\<close> with a deletion table), then \<^verbatim>\<open>' '.join(text.split())\<close>.
\<close>

definition remove_punctuation :: "string \<Rightarrow> string" where
  "remove_punctuation s = filter (\<lambda>c. \<not> is_punct c) s"

definition preprocess_text :: "string \<Rightarrow> string" where
  "preprocess_text t = join_sp (py_split (remove_punctuation (lower t)))"

section \<open>Sentence splitter\<close>

definition is_terminal :: "char \<Rightarrow> bool" where
  "is_terminal c = (c = CHR ''.'' \<or> c = CHR ''!'' \<or> c = CHR ''?'')"

text \<open>
  \<^verbatim>\<open>re.split(r'(?<=[.!?])\s+', text)\<close>: a left-to-right scan. A match starts at a
  whitespace character that directly follows one of \<^verbatim>\<open>.!?\<close> and takes the whole whitespace
  run; the characters before it are a fragment. The first argument records whether the
  previous character is such a terminator, the second is the fragment read so far. After a
  match the previous character is whitespace, and the last fragment is always emitted, also
  when it is empty.
\<close>

function re_split_from :: "bool \<Rightarrow> string \<Rightarrow> string \<Rightarrow> string list" where
  "re_split_from after_term cur [] = [cur]"
| "re_split_from after_term cur (c # cs) =
     (if after_term \<and> is_space c then cur # re_split_from False [] (dropWhile is_space cs)
      else re_split_from (is_terminal c) (cur @ [c]) cs)"
  by pat_completeness auto
termination
  by (relation "measure (\<lambda>(b, cur, cs). length cs)")
     (auto simp: less_Suc_eq_le length_dropWhile_le)

definition re_split :: "string \<Rightarrow> string list" where
  "re_split t = re_split_from False [] t"

definition ends_terminal :: "string \<Rightarrow> bool" where
  "ends_terminal s = (s \<noteq> [] \<and> is_terminal (last s))"

text \<open>
  The loop of \<^verbatim>\<open>split_into_sentences\<close> over the fragments; the first argument is
  \<^verbatim>\<open>cleaned_sentences\<close>.
\<close>

fun clean_loop :: "string list \<Rightarrow> string list \<Rightarrow> string list" where
  "clean_loop cleaned_sentences [] = cleaned_sentences"
| "clean_loop cleaned_sentences (s0 # sentences) =
     (let s = strip s0
      in if s \<noteq> [] \<and> (is_terminal (last s) \<or> 5 < length (py_split s))
         then clean_loop
                (cleaned_sentences @ [if \<not> is_terminal (last s) then s @ ''.'' else s]) sentences
         else clean_loop cleaned_sentences sentences)"

definition split_into_sentences :: "string \<Rightarrow> string list" where
  "split_into_sentences t = clean_loop [] (re_split t)"

section \<open>Passage segmenter\<close>

record passage =
  passage_text :: string
  source :: string
  passage_id :: string

text \<open>
  The state of \<^verbatim>\<open>RAGSystem\<close> that the operations below read and write. The field
  \<open>fitted\<close> stands for the pair \<^verbatim>\<open>vectorizer\<close>/\<^verbatim>\<open>passage_vectors\<close>: it is \<open>None\<close> for
  the unfitted vectorizer of \<^verbatim>\<open>__init__\<close>, and holds the preprocessed passages that
  \<^verbatim>\<open>fit_transform\<close> was given once \<^verbatim>\<open>index_passages\<close> has run.
\<close>

record rag_system =
  max_words_per_passage :: int
  passages :: "passage list"
  fitted :: "string list option"

text \<open>
  \<^verbatim>\<open>__init__\<close>: no passages, an unfitted vectorizer. (The fields \<^verbatim>\<open>docs_dir\<close> and
  \<^verbatim>\<open>documents\<close> are read by file ingestion only and are left out.)
\<close>

definition init_rag_system :: "int \<Rightarrow> rag_system" where
  "init_rag_system max_words =
     \<lparr>max_words_per_passage = max_words, passages = [], fitted = None\<rparr>"

text \<open>
  The loop of \<^verbatim>\<open>create_passages\<close>; the arguments after the limit are \<^verbatim>\<open>passages\<close>,
  \<^verbatim>\<open>current_passage\<close>, \<^verbatim>\<open>current_word_count\<close> and the sentences still to read. The last
  equation is the flush after the loop.
\<close>

fun passage_loop ::
  "int \<Rightarrow> string list \<Rightarrow> string list \<Rightarrow> int \<Rightarrow> string list \<Rightarrow> string list" where
  "passage_loop mx ps current_passage current_word_count [] =
     (if current_passage \<noteq> [] then ps @ [join_sp current_passage] else ps)"
| "passage_loop mx ps current_passage current_word_count (sentence # sentences) =
     (let word_count = int (length (py_split sentence))
      in if current_word_count + word_count > mx \<and> current_passage \<noteq> []
         then passage_loop mx (ps @ [join_sp current_passage]) [sentence] word_count sentences
         else passage_loop mx ps (current_passage @ [sentence])
                (current_word_count + word_count) sentences)"

definition create_passages :: "rag_system \<Rightarrow> string \<Rightarrow> string \<Rightarrow> string list" where
  "create_passages self t filename =
     passage_loop (max_words_per_passage self) [] [] 0 (split_into_sentences t)"

section \<open>Lexical index and retriever\<close>

text \<open>
  The numerical libraries that \<^verbatim>\<open>index_passages\<close> and \<^verbatim>\<open>retrieve\<close> call are parameters of
  the model:
  \<^item> \<open>empty_vocabulary corpus\<close>: \<^verbatim>\<open>TfidfVectorizer.fit_transform\<close> finds no term in the
    corpus and raises \<^verbatim>\<open>ValueError\<close>;
  \<^item> \<open>cosine corpus q i\<close>: entry \<open>i\<close> of
    \<^verbatim>\<open>cosine_similarity(transform([q]), fit_transform(corpus))[0]\<close>, one entry per row of the
    fitted matrix, read as a real number;
  \<^item> \<open>argsort xs\<close>: \<^verbatim>\<open>np.argsort(xs)\<close> with the default sort kind.
\<close>

record numeric_library =
  empty_vocabulary :: "string list \<Rightarrow> bool"
  cosine :: "string list \<Rightarrow> string \<Rightarrow> nat \<Rightarrow> real"
  argsort :: "real list \<Rightarrow> nat list"

text \<open>
  What \<^verbatim>\<open>np.argsort\<close> promises: the indices of the array, each once, in an order that sorts
  the values ascending. The default kind is not stable, so the order of equal values is left
  open.
\<close>

definition argsort_spec :: "real list \<Rightarrow> nat list \<Rightarrow> bool" where
  "argsort_spec xs idx =
     (sorted (map (\<lambda>i. xs ! i) idx) \<and> distinct idx \<and> set idx = {0..<length xs})"

text \<open>
  The stable order (equal values keep their index order), which is what the scalar sort of
  numpy gives on short arrays, where it is an insertion sort.
\<close>

definition stable_argsort :: "real list \<Rightarrow> nat list" where
  "stable_argsort xs = sort_key (\<lambda>i. xs ! i) [0..<length xs]"

datatype error = NotFittedError | ValueError | IndexError

record retrieval_result =
  passage :: passage
  score :: real

text \<open>
  \<^verbatim>\<open>index_passages\<close>: with no passages it prints a message and returns, leaving the
  vectorizer unfitted.
\<close>

definition index_passages :: "numeric_library \<Rightarrow> rag_system \<Rightarrow> error + rag_system" where
  "index_passages lib self =
     (if passages self = [] then Inr self
      else let preprocessed_passages = map (\<lambda>p. preprocess_text (passage_text p)) (passages self)
           in if empty_vocabulary lib preprocessed_passages then Inl ValueError
              else Inr (self\<lparr>fitted := Some preprocessed_passages\<rparr>))"

text \<open>The Python slice \<^verbatim>\<open>xs[s:]\<close> for an integer \<open>s\<close> of either sign.\<close>

definition slice_from :: "int \<Rightarrow> 'a list \<Rightarrow> 'a list" where
  "slice_from s xs =
     (let n = int (length xs);
          start = (if s < 0 then max (n + s) 0 else min s n)
      in drop (nat start) xs)"

text \<open>
  The result loop of \<^verbatim>\<open>retrieve\<close>: \<^verbatim>\<open>self.passages[idx]\<close> raises \<^verbatim>\<open>IndexError\<close> when the
  index is not one of the passage list.
\<close>

fun collect_results :: "passage list \<Rightarrow> real list \<Rightarrow> nat list \<Rightarrow> error + retrieval_result list" where
  "collect_results ps similarities [] = Inr []"
| "collect_results ps similarities (idx # rest) =
     (if idx < length ps
      then (case collect_results ps similarities rest of
              Inl e \<Rightarrow> Inl e
            | Inr results \<Rightarrow> Inr (\<lparr>passage = ps ! idx, score = similarities ! idx\<rparr> # results))
      else Inl IndexError)"

definition top_k_indices :: "numeric_library \<Rightarrow> real list \<Rightarrow> int \<Rightarrow> nat list" where
  "top_k_indices lib similarities k = rev (slice_from (- k) (argsort lib similarities))"

text \<open>
  \<^verbatim>\<open>retrieve\<close>: \<^verbatim>\<open>vectorizer.transform\<close> raises \<^verbatim>\<open>NotFittedError\<close> on a vectorizer that was
  never fitted.
\<close>

definition retrieve ::
  "numeric_library \<Rightarrow> rag_system \<Rightarrow> string \<Rightarrow> int \<Rightarrow> error + retrieval_result list" where
  "retrieve lib self query k =
     (let preprocessed_query = preprocess_text query
      in case fitted self of
           None \<Rightarrow> Inl NotFittedError
         | Some corpus \<Rightarrow>
             (let similarities = map (cosine lib corpus preprocessed_query) [0..<length corpus]
              in collect_results (passages self) similarities
                   (top_k_indices lib similarities k)))"

section \<open>Answer extractor\<close>

definition stop_words :: "string list" where
  "stop_words =
     [''what'', ''is'', ''the'', ''how'', ''do'', ''i'', ''does'', ''have'', ''for'',
      ''many'', ''long'', ''to'', ''a'', ''an'', ''are'', ''get'', ''can'', ''my'',
      ''schedule'', ''take'']"

text \<open>
  \<^verbatim>\<open>extract_keywords\<close>: the comprehension tests the lowercased word as it stands and strips
  the punctuation from the words that pass.
\<close>

definition extract_keywords :: "string \<Rightarrow> string list" where
  "extract_keywords query =
     (let ws = py_split (lower query)
      in map (strip_chars is_punct) (filter (\<lambda>w. lower w \<notin> set stop_words) ws))"

text \<open>\<^verbatim>\<open>needle in haystack\<close> on strings.\<close>

fun contains :: "string \<Rightarrow> string \<Rightarrow> bool" where
  "contains needle [] = (needle = [])"
| "contains needle (c # cs) = (take (length needle) (c # cs) = needle \<or> contains needle cs)"

fun keyword_loop :: "string list \<Rightarrow> string \<Rightarrow> int \<Rightarrow> int" where
  "keyword_loop [] sentence_lower sc = sc"
| "keyword_loop (keyword # keywords) sentence_lower sc =
     keyword_loop keywords sentence_lower (if contains keyword sentence_lower then sc + 2 else sc)"

fun query_word_loop :: "string list \<Rightarrow> string \<Rightarrow> int \<Rightarrow> int" where
  "query_word_loop [] sentence_lower sc = sc"
| "query_word_loop (w # query_words) sentence_lower sc =
     query_word_loop query_words sentence_lower
       (if 3 < length w \<and> contains w sentence_lower then sc + 1 else sc)"

definition score_sentence_relevance :: "string \<Rightarrow> string list \<Rightarrow> string \<Rightarrow> int" where
  "score_sentence_relevance sentence keywords query_lower =
     (let sentence_lower = lower sentence;
          sc = keyword_loop keywords sentence_lower 0;
          sc = query_word_loop (py_split query_lower) sentence_lower sc;
          word_count = length (py_split sentence);
          sc = (if 50 < word_count then sc - 2 else sc);
          sc = (if list_ex is_digit sentence then sc + 1 else sc)
      in sc)"

record candidate =
  candidate_sentence :: string
  relevance_score :: int
  candidate_source :: string
  passage_score :: real

definition no_answer :: string where
  "no_answer =
     ''I couldn'' @ [CHR 0x27] @ ''t find relevant information to answer this question.''"

text \<open>The inner loop of \<^verbatim>\<open>generate_answer\<close> over the sentences of one retrieved passage.\<close>

fun sentence_loop :: "string list \<Rightarrow> string \<Rightarrow> retrieval_result \<Rightarrow> string list \<Rightarrow> candidate list" where
  "sentence_loop keywords query_lower result [] = []"
| "sentence_loop keywords query_lower result (s # sentences) =
     (if length (py_split s) < 5 then sentence_loop keywords query_lower result sentences
      else let r = score_sentence_relevance s keywords query_lower
           in if 0 < r
              then \<lparr>candidate_sentence = s, relevance_score = r,
                    candidate_source = source (passage result), passage_score = score result\<rparr>
                   # sentence_loop keywords query_lower result sentences
              else sentence_loop keywords query_lower result sentences)"

fun result_loop :: "string list \<Rightarrow> string \<Rightarrow> retrieval_result list \<Rightarrow> candidate list" where
  "result_loop keywords query_lower [] = []"
| "result_loop keywords query_lower (result # results) =
     sentence_loop keywords query_lower result
       (split_into_sentences (passage_text (passage result)))
     @ result_loop keywords query_lower results"

text \<open>
  \<^verbatim>\<open>list.sort(key=..., reverse=True)\<close>: descending by key, elements with equal keys in
  their original order.
\<close>

definition sort_reverse :: "('a \<Rightarrow> 'k::linorder) \<Rightarrow> 'a list \<Rightarrow> 'a list" where
  "sort_reverse key xs = rev (sort_key key (rev xs))"

definition finish_sentence :: "string \<Rightarrow> string" where
  "finish_sentence best_sentence =
     (let b = strip best_sentence in if \<not> ends_terminal b then b @ ''.'' else b)"

fun generate_answer :: "string \<Rightarrow> retrieval_result list \<Rightarrow> string \<times> string list" where
  "generate_answer query [] = (no_answer, [])"
| "generate_answer query (top_result # rest) =
     (if score top_result < 1 / 100 then (no_answer, [])
      else let keywords = extract_keywords query;
               query_lower = lower query;
               candidate_sentences = result_loop keywords query_lower (top_result # rest)
           in if candidate_sentences = []
              then (let top_passage = passage top_result;
                        sentences = split_into_sentences (passage_text top_passage);
                        best_sentence =
                          (case sentences of [] \<Rightarrow> passage_text top_passage | s # _ \<Rightarrow> s)
                    in (finish_sentence best_sentence, [source top_passage]))
              else (let best = hd (sort_reverse (\<lambda>x. (relevance_score x, passage_score x))
                                     candidate_sentences)
                    in (finish_sentence (candidate_sentence best), [candidate_source best])))"

text \<open>\<^verbatim>\<open>answer_query\<close>: retrieval, then answer generation; an exception of retrieval propagates.\<close>

definition answer_query ::
  "numeric_library \<Rightarrow> rag_system \<Rightarrow> string \<Rightarrow> int \<Rightarrow> error + string \<times> string list" where
  "answer_query lib self query k =
     (case retrieve lib self query k of
        Inl e \<Rightarrow> Inl e
      | Inr retrieved_results \<Rightarrow> Inr (generate_answer query retrieved_results))"

section \<open>The claims' vocabulary\<close>

text \<open>
  The sentence splitter as the specification words it: a trimmed fragment is kept when it is
  non-empty and ends with a terminator or has more than five words, and a kept fragment
  without a terminator gets a period.
\<close>

definition keep_fragment :: "string \<Rightarrow> bool" where
  "keep_fragment s = (s \<noteq> [] \<and> (is_terminal (last s) \<or> 5 < length (py_split s)))"

definition add_period :: "string \<Rightarrow> string" where
  "add_period s = (if ends_terminal s then s else s @ ''.'')"

text \<open>The word count of a string, \<^verbatim>\<open>len(s.split())\<close>.\<close>

definition word_count :: "string \<Rightarrow> int" where
  "word_count s = int (length (py_split s))"

text \<open>\<open>needle\<close> occurs in \<open>haystack\<close> as a contiguous substring.\<close>

definition occurs_in :: "string \<Rightarrow> string \<Rightarrow> bool" where
  "occurs_in needle haystack = (\<exists>before after. haystack = before @ needle @ after)"

text \<open>
  Retrieval as the specification words it: the passages ranked by descending score, equal
  scores by ascending passage index, cut to the first \<open>k\<close>.
\<close>

definition spec_ranking :: "real list \<Rightarrow> nat list" where
  "spec_ranking similarities = sort_key (\<lambda>i. - (similarities ! i)) [0..<length similarities]"

definition spec_retrieve :: "passage list \<Rightarrow> real list \<Rightarrow> int \<Rightarrow> retrieval_result list" where
  "spec_retrieve ps similarities k =
     map (\<lambda>i. \<lparr>passage = ps ! i, score = similarities ! i\<rparr>) (take (nat k) (spec_ranking similarities))"

text \<open>
  A library instance for concrete runs: the similarity row is given, the vocabulary is never
  empty, and \<open>argsort\<close> is the stable one. The index below holds two passages with the same
  text, from two documents; identical passages have identical similarities to every query.
\<close>

definition fixed_scores_library :: "real list \<Rightarrow> numeric_library" where
  "fixed_scores_library similarities =
     \<lparr>empty_vocabulary = (\<lambda>corpus. False),
      cosine = (\<lambda>corpus q i. if i < length similarities then similarities ! i else 0),
      argsort = stable_argsort\<rparr>"

definition passage_a :: passage where
  "passage_a = \<lparr>passage_text = ''alpha beta.'', source = ''a.txt'', passage_id = ''a.txt_passage_0''\<rparr>"

definition passage_b :: passage where
  "passage_b = \<lparr>passage_text = ''alpha beta.'', source = ''b.txt'', passage_id = ''b.txt_passage_0''\<rparr>"

definition two_passage_index :: rag_system where
  "two_passage_index =
     \<lparr>max_words_per_passage = 120, passages = [passage_a, passage_b],
      fitted = Some [''alpha beta'', ''alpha beta'']\<rparr>"

section \<open>Properties of the string primitives\<close>

lemma of_char_lower_char:
  "(of_char (lower_char c) :: nat) = (if is_upper c then of_char c + 32 else of_char c)"
  by (auto simp: lower_char_def is_upper_def Let_def of_char_of)

lemma is_space_lower_char [simp]: "is_space (lower_char c) = is_space c"
  unfolding is_space_def of_char_lower_char by (auto simp: is_upper_def Let_def)

lemma is_punct_lower_char [simp]: "is_punct (lower_char c) = is_punct c"
  unfolding is_punct_def of_char_lower_char by (auto simp: is_upper_def Let_def)

lemma is_upper_lower_char [simp]: "\<not> is_upper (lower_char c)"
  unfolding is_upper_def[of "lower_char c"] of_char_lower_char by (auto simp: is_upper_def Let_def)

lemma lower_char_idem [simp]: "lower_char (lower_char c) = lower_char c"
  by (simp add: lower_char_def[of "lower_char c"])

lemma not_punct_space: "is_space c \<Longrightarrow> \<not> is_punct c"
  by (auto simp: is_space_def is_punct_def Let_def)

lemma not_upper_space: "is_space c \<Longrightarrow> \<not> is_upper c"
  by (auto simp: is_space_def is_upper_def Let_def)

lemma is_space_blank [simp]: "is_space (CHR '' '')"
  by (simp add: is_space_def)

lemma py_split_word_app:
  assumes "w \<noteq> []" "\<forall>c\<in>set w. \<not> is_space c" "s = [] \<or> is_space (hd s)"
  shows "py_split (w @ s) = w # py_split s"
proof -
  obtain a w' where w: "w = a # w'" using assms(1) by (cases w) auto
  have tk: "takeWhile (\<lambda>x. \<not> is_space x) (w' @ s) = w'"
    using assms(2,3) w by (cases s) (auto simp: takeWhile_append2)
  have dr: "dropWhile (\<lambda>x. \<not> is_space x) (w' @ s) = s"
    using assms(2,3) w by (cases s) (auto simp: dropWhile_append2)
  show ?thesis using assms(2) w tk dr by simp
qed

lemma py_split_join:
  "\<forall>w\<in>set ws. w \<noteq> [] \<and> (\<forall>c\<in>set w. \<not> is_space c) \<Longrightarrow> py_split (join_sp ws) = ws"
proof (induction ws rule: join_sp.induct)
  case 1 show ?case by simp
next
  case (2 w)
  then show ?case using py_split_word_app[of w "[]"] by simp
next
  case (3 w v ws)
  then show ?case using py_split_word_app[of w "CHR '' '' # join_sp (v # ws)"] by simp
qed

lemma py_split_words:
  "w \<in> set (py_split s) \<Longrightarrow> w \<noteq> [] \<and> (\<forall>c\<in>set w. \<not> is_space c) \<and> set w \<subseteq> set s"
proof (induction s arbitrary: w rule: py_split.induct)
  case 1 then show ?case by simp
next
  case (2 c cs)
  show ?case
  proof (cases "is_space c")
    case True
    with 2 show ?thesis by auto
  next
    case False
    with 2(3) consider "w = c # takeWhile (\<lambda>x. \<not> is_space x) cs"
      | "w \<in> set (py_split (dropWhile (\<lambda>x. \<not> is_space x) cs))" by auto
    then show ?thesis
    proof cases
      case 1
      then show ?thesis using False by (auto dest: set_takeWhileD)
    next
      case 2
      from "2.IH"(2)[OF False 2] show ?thesis by (auto dest: set_dropWhileD)
    qed
  qed
qed

lemma set_join_sp: "set (join_sp ws) \<subseteq> (\<Union>w\<in>set ws. set w) \<union> {CHR '' ''}"
  by (induction ws rule: join_sp.induct) auto

section \<open>Text normalizer: idempotence\<close>

lemma lower_fixed: "\<forall>c\<in>set s. \<not> is_upper c \<Longrightarrow> lower s = s"
  by (induction s) (auto simp: lower_def lower_char_def)

lemma remove_punctuation_fixed: "\<forall>c\<in>set s. \<not> is_punct c \<Longrightarrow> remove_punctuation s = s"
  by (induction s) (auto simp: remove_punctuation_def)

text \<open>
  Claim C7. Normalization is idempotent: normalizing an already normalized string changes
  nothing, for every input string.
\<close>

theorem preprocess_text_idempotent:
  "preprocess_text (preprocess_text x) = preprocess_text x"
proof -
  define y where "y = remove_punctuation (lower x)"
  define ws where "ws = py_split y"
  have y: "\<forall>c\<in>set y. \<not> is_upper c \<and> \<not> is_punct c"
    by (auto simp: y_def remove_punctuation_def lower_def)
  have ws: "\<forall>w\<in>set ws. w \<noteq> [] \<and> (\<forall>c\<in>set w. \<not> is_space c) \<and> set w \<subseteq> set y"
    unfolding ws_def using py_split_words by blast
  have chars: "\<forall>c\<in>set (join_sp ws). \<not> is_upper c \<and> \<not> is_punct c"
  proof
    fix c assume "c \<in> set (join_sp ws)"
    then consider "c = CHR '' ''" | w where "w \<in> set ws" "c \<in> set w"
      using set_join_sp[of ws] by auto
    then show "\<not> is_upper c \<and> \<not> is_punct c"
    proof cases
      case 1 then show ?thesis using not_punct_space not_upper_space by simp
    next
      case 2 then show ?thesis using ws y by blast
    qed
  qed
  have "lower (join_sp ws) = join_sp ws" using chars by (simp add: lower_fixed)
  moreover have "remove_punctuation (join_sp ws) = join_sp ws"
    using chars by (simp add: remove_punctuation_fixed)
  moreover have "py_split (join_sp ws) = ws" using ws by (simp add: py_split_join)
  ultimately show ?thesis by (simp add: preprocess_text_def y_def ws_def)
qed

section \<open>Sentence splitter: which fragments are kept\<close>

lemma clean_loop_eq:
  "clean_loop acc fs = acc @ map add_period (filter keep_fragment (map strip fs))"
  by (induction fs arbitrary: acc)
     (auto simp: Let_def keep_fragment_def add_period_def ends_terminal_def)

text \<open>
  Claim C5. For every input text, the sentence splitter trims each fragment of the split,
  keeps exactly the fragments that are non-empty and either end with one of the three
  terminators or have more than five words, appends a period to every kept fragment without
  a terminator, and preserves the order of the fragments.
\<close>

theorem split_into_sentences_keeps:
  "split_into_sentences t = map add_period (filter keep_fragment (map strip (re_split t)))"
  by (simp add: split_into_sentences_def clean_loop_eq)

section \<open>Passage segmenter: completeness\<close>

lemma join_sp_snoc: "xs \<noteq> [] \<Longrightarrow> join_sp (xs @ [s]) = join_sp xs @ CHR '' '' # s"
  by (induction xs rule: join_sp.induct) auto

lemma join_sp_merge: "join_sp (xs @ (a @ CHR '' '' # b) # ys) = join_sp (xs @ a # b # ys)"
proof (induction xs rule: join_sp.induct)
  case 1 show ?case by (cases ys) auto
next
  case (2 w) show ?case by (cases ys) auto
next
  case (3 w v ws) then show ?case by simp
qed

lemma passage_loop_join:
  "join_sp (passage_loop mx ps cur cnt ss) =
   join_sp (ps @ (if cur = [] then [] else [join_sp cur]) @ ss)"
proof (induction ss arbitrary: ps cur cnt)
  case Nil
  show ?case by simp
next
  case (Cons s ss)
  show ?case
  proof (cases "cnt + int (length (py_split s)) > mx \<and> cur \<noteq> []")
    case True
    then show ?thesis using Cons.IH[of "ps @ [join_sp cur]" "[s]"] by simp
  next
    case False
    show ?thesis
    proof (cases "cur = []")
      case True
      then show ?thesis using False Cons.IH[of ps "[s]"] by simp
    next
      case ne: False
      have "join_sp (ps @ [join_sp (cur @ [s])] @ ss) = join_sp (ps @ join_sp cur # s # ss)"
        using ne join_sp_merge[of ps "join_sp cur" s ss] by (simp add: join_sp_snoc)
      then show ?thesis using False ne Cons.IH[of ps "cur @ [s]"] by simp
    qed
  qed
qed

text \<open>
  Claim C8. For every input text, the passages joined by single spaces are the sentences of
  the sentence splitter joined by single spaces: segmentation drops and reorders nothing.
\<close>

theorem create_passages_complete:
  "join_sp (create_passages self t filename) = join_sp (split_into_sentences t)"
  by (simp add: create_passages_def passage_loop_join)

section \<open>Passage segmenter: the word bound\<close>

lemma py_split_app_space:
  "is_space c \<Longrightarrow> py_split (a @ c # b) = py_split a @ py_split b"
proof (induction a rule: py_split.induct)
  case 1
  then show ?case by simp
next
  case (2 x xs)
  show ?case
  proof (cases "is_space x")
    case True
    with 2 show ?thesis by simp
  next
    case False
    show ?thesis
    proof (cases "\<forall>y\<in>set xs. \<not> is_space y")
      case True
      then have eqs: "takeWhile (\<lambda>x. \<not> is_space x) (xs @ c # b) = xs"
        "dropWhile (\<lambda>x. \<not> is_space x) (xs @ c # b) = c # b"
        "takeWhile (\<lambda>x. \<not> is_space x) xs = xs"
        "dropWhile (\<lambda>x. \<not> is_space x) xs = []"
        using "2.prems" by (auto simp: takeWhile_append2 dropWhile_append2)
      show ?thesis using False "2.prems" by (simp add: eqs)
    next
      case ex: False
      then obtain y where y: "y \<in> set xs" "is_space y" by blast
      have "takeWhile (\<lambda>x. \<not> is_space x) (xs @ c # b) = takeWhile (\<lambda>x. \<not> is_space x) xs"
        using y by (simp add: takeWhile_append1)
      moreover have "dropWhile (\<lambda>x. \<not> is_space x) (xs @ c # b)
          = dropWhile (\<lambda>x. \<not> is_space x) xs @ c # b"
        using y by (simp add: dropWhile_append1)
      ultimately show ?thesis using False "2.IH"(2)[OF False "2.prems"] by simp
    qed
  qed
qed

lemma word_count_join_sp: "word_count (join_sp ws) = sum_list (map word_count ws)"
  by (induction ws rule: join_sp.induct) (auto simp: word_count_def py_split_app_space)

lemma passage_loop_bound:
  assumes "\<forall>p\<in>set ps. word_count p \<le> mx \<or> (p \<in> S \<and> mx < word_count p)"
    and "cnt = sum_list (map word_count cur)"
    and "cnt \<le> mx \<or> length cur \<le> 1"
    and "set cur \<union> set ss \<subseteq> S"
  shows "\<forall>p\<in>set (passage_loop mx ps cur cnt ss).
           word_count p \<le> mx \<or> (p \<in> S \<and> mx < word_count p)"
  using assms
proof (induction ss arbitrary: ps cur cnt)
  case Nil
  have "word_count (join_sp cur) \<le> mx \<or> (join_sp cur \<in> S \<and> mx < word_count (join_sp cur))"
    if ne: "cur \<noteq> []"
  proof (cases "cnt \<le> mx")
    case True
    then show ?thesis using Nil.prems(2) by (simp add: word_count_join_sp)
  next
    case False
    then obtain s where "cur = [s]" using Nil.prems(3) ne
      by (cases cur) (auto simp: le_Suc_eq)
    then show ?thesis using Nil.prems(4) by auto
  qed
  then show ?case using Nil.prems(1) by auto
next
  case (Cons s ss)
  have closed: "word_count (join_sp cur) \<le> mx \<or> (join_sp cur \<in> S \<and> mx < word_count (join_sp cur))"
    if ne: "cur \<noteq> []"
  proof (cases "cnt \<le> mx")
    case True
    then show ?thesis using Cons.prems(2) by (simp add: word_count_join_sp)
  next
    case False
    then obtain s' where "cur = [s']" using Cons.prems(3) ne
      by (cases cur) (auto simp: le_Suc_eq)
    then show ?thesis using Cons.prems(4) by auto
  qed
  show ?case
  proof (cases "cnt + int (length (py_split s)) > mx \<and> cur \<noteq> []")
    case True
    have "\<forall>p\<in>set (passage_loop mx (ps @ [join_sp cur]) [s] (word_count s) ss).
            word_count p \<le> mx \<or> (p \<in> S \<and> mx < word_count p)"
      using Cons.prems closed True by (intro Cons.IH) auto
    then show ?thesis using True by (simp add: word_count_def Let_def)
  next
    case False
    have "\<forall>p\<in>set (passage_loop mx ps (cur @ [s]) (cnt + word_count s) ss).
            word_count p \<le> mx \<or> (p \<in> S \<and> mx < word_count p)"
      using Cons.prems False by (intro Cons.IH) (auto simp: word_count_def)
    then show ?thesis using False by (auto simp: word_count_def Let_def)
  qed
qed

text \<open>
  Claim C6. For every input text and every limit, each passage of the segmenter has at most
  \<open>max_words_per_passage\<close> words, unless it is a single sentence of the splitter's output
  whose own word count exceeds the limit.
\<close>

theorem create_passages_bound:
  "\<forall>p\<in>set (create_passages self t filename).
     word_count p \<le> max_words_per_passage self \<or>
     (p \<in> set (split_into_sentences t) \<and> max_words_per_passage self < word_count p)"
  unfolding create_passages_def
  by (rule passage_loop_bound) auto

theorem create_passages_bound_witness:
  "create_passages \<lparr>max_words_per_passage = 3, passages = [], fitted = None\<rparr>
     ''a b. c d. e f g h. i.'' ''doc.txt'' = [''a b.'', ''c d.'', ''e f g h.'', ''i.''] \<and>
   word_count ''a b.'' \<le> 3 \<and>
   ''e f g h.'' \<in> set (split_into_sentences ''a b. c d. e f g h. i.'') \<and>
   3 < word_count ''e f g h.''"
proof -
  let ?S = "\<lparr>max_words_per_passage = 3, passages = [], fitted = None\<rparr>"
  let ?T = "''a b. c d. e f g h. i.''"
  have e: "create_passages ?S ?T ''doc.txt'' = [''a b.'', ''c d.'', ''e f g h.'', ''i.'']"
    by code_simp
  have w: "word_count ''a b.'' = 2" "word_count ''e f g h.'' = 4"
    by code_simp+
  have "\<forall>p\<in>set [''a b.'', ''c d.'', ''e f g h.'', ''i.''].
          word_count p \<le> 3 \<or> (p \<in> set (split_into_sentences ?T) \<and> 3 < word_count p)"
    using create_passages_bound[of ?S ?T "''doc.txt''"] unfolding e by simp
  then show ?thesis using e w by simp
qed

section \<open>Answer extractor: the relevance score\<close>

lemma take_eq_iff_prefix: "take (length k) s = k \<longleftrightarrow> (\<exists>q. s = k @ q)"
proof
  assume "take (length k) s = k"
  then have "s = k @ drop (length k) s" by (metis append_take_drop_id)
  then show "\<exists>q. s = k @ q" ..
next
  assume "\<exists>q. s = k @ q"
  then show "take (length k) s = k" by auto
qed

lemma contains_occurs_in: "contains k s = occurs_in k s"
proof (induction s)
  case Nil
  show ?case by (auto simp: occurs_in_def)
next
  case (Cons c cs)
  have "occurs_in k (c # cs) \<longleftrightarrow> (\<exists>q. c # cs = k @ q) \<or> occurs_in k cs"
  proof
    assume "occurs_in k (c # cs)"
    then obtain p q where pq: "c # cs = p @ k @ q" by (auto simp: occurs_in_def)
    show "(\<exists>q. c # cs = k @ q) \<or> occurs_in k cs"
    proof (cases p)
      case Nil
      with pq show ?thesis by auto
    next
      case (Cons a p')
      with pq have "cs = p' @ k @ q" by simp
      then show ?thesis by (auto simp: occurs_in_def)
    qed
  next
    assume "(\<exists>q. c # cs = k @ q) \<or> occurs_in k cs"
    then show "occurs_in k (c # cs)"
    proof
      assume "\<exists>q. c # cs = k @ q"
      then obtain q where "c # cs = [] @ k @ q" by auto
      then show ?thesis unfolding occurs_in_def by blast
    next
      assume "occurs_in k cs"
      then obtain p q where "cs = p @ k @ q" by (auto simp: occurs_in_def)
      then have "c # cs = (c # p) @ k @ q" by simp
      then show ?thesis unfolding occurs_in_def by blast
    qed
  qed
  then show ?case using Cons.IH by (simp add: take_eq_iff_prefix del: take_Suc_Cons)
qed

lemma keyword_loop_eq:
  "keyword_loop kws sl sc = sc + 2 * int (length (filter (\<lambda>k. occurs_in k sl) kws))"
  by (induction kws arbitrary: sc) (auto simp: contains_occurs_in)

lemma query_word_loop_eq:
  "query_word_loop ws sl sc =
     sc + int (length (filter (\<lambda>w. 3 < length w \<and> occurs_in w sl) ws))"
  by (induction ws arbitrary: sc) (auto simp: contains_occurs_in)

text \<open>
  Claim C9. For every sentence, keyword list and query, the relevance score is exactly: 2 for
  each keyword of the list that occurs as a substring of the lowercased sentence, plus 1 for
  each word of the lowercased query that is longer than 3 characters and occurs as a
  substring of the lowercased sentence, minus 2 if the sentence has more than 50 words, plus
  1 if the sentence contains a digit.
\<close>

theorem score_sentence_relevance_formula:
  "score_sentence_relevance sentence keywords (lower query) =
     2 * int (length (filter (\<lambda>k. occurs_in k (lower sentence)) keywords))
     + int (length (filter (\<lambda>w. 3 < length w \<and> occurs_in w (lower sentence))
                      (py_split (lower query))))
     - (if 50 < word_count sentence then 2 else 0)
     + (if \<exists>c\<in>set sentence. is_digit c then 1 else 0)"
  by (simp add: score_sentence_relevance_def keyword_loop_eq query_word_loop_eq word_count_def
      list_ex_iff Let_def)

section \<open>Answer extractor: the confidence floor and the keywords\<close>

text \<open>
  Claim C4. For every query, when the list of retrieval results is empty or the score of the
  top result is below 0.01, answer generation returns the canned sentence and no sources.
\<close>

theorem generate_answer_low_confidence:
  assumes "retrieved_results = [] \<or> score (hd retrieved_results) < 1 / 100"
  shows "generate_answer query retrieved_results = (no_answer, [])"
  using assms by (cases retrieved_results) auto

theorem generate_answer_low_confidence_witness:
  "generate_answer ''How long is the warranty?'' [] = (no_answer, []) \<and>
   generate_answer ''How long is the warranty?'' [\<lparr>passage = passage_a, score = 1 / 200\<rparr>]
     = (no_answer, [])"
  using generate_answer_low_confidence[of "[]" "''How long is the warranty?''"]
    generate_answer_low_confidence[of "[\<lparr>passage = passage_a, score = 1 / 200\<rparr>]"
      "''How long is the warranty?''"]
  by simp

text \<open>
  Claim C10. The claim has the stop words discarded after the punctuation is stripped, so that
  the query word \<^verbatim>\<open>what?\<close> is discarded. The code tests the word before it strips it: the
  stop word \<^verbatim>\<open>what\<close>, written with a question mark, comes out as a keyword.
\<close>

theorem extract_keywords_keeps_punctuated_stop_word:
  "extract_keywords ''what?'' = [''what''] \<and> ''what'' \<in> set stop_words"
  by code_simp

section \<open>Retriever\<close>

lemma collect_results_ok:
  "\<forall>i\<in>set idx. i < length ps \<Longrightarrow>
   collect_results ps sims idx = Inr (map (\<lambda>i. \<lparr>passage = ps ! i, score = sims ! i\<rparr>) idx)"
  by (induction idx) auto

lemma argsort_spec_length: "argsort_spec xs idx \<Longrightarrow> length idx = length xs"
  using distinct_card[of idx] by (simp add: argsort_spec_def)

lemma slice_from_tail: "s < 0 \<Longrightarrow> slice_from s xs = drop (length xs - nat (- s)) xs"
proof -
  assume "s < 0"
  moreover from this have "nat (max (int (length xs) + s) 0) = length xs - nat (- s)" by arith
  ultimately show ?thesis by (simp add: slice_from_def Let_def)
qed

lemma slice_from_head: "0 \<le> s \<Longrightarrow> slice_from s xs = drop (nat s) xs"
  by (auto simp: slice_from_def Let_def min_def)

lemma stable_argsort_spec: "argsort_spec xs (stable_argsort xs)"
  by (simp add: argsort_spec_def stable_argsort_def)

lemma fixed_cosine:
  "cosine (fixed_scores_library sims) corpus q i = (if i < length sims then sims ! i else 0)"
  by (simp add: fixed_scores_library_def)

lemma stable_argsort_tie: "stable_argsort [a, a] = [0, 1]"
  by (simp add: stable_argsort_def upt_rec)

text \<open>
  Claim C1, as amended. For every fitted index whose passage list is aligned with the fitted
  matrix, every query and every \<open>k \<ge> 1\<close>: retrieval returns the passages at the indices
  \<open>top_k_indices\<close>; there are \<open>min k n\<close> of them, all different; their scores descend; and no
  passage left out scores higher than a passage returned. Nothing is promised about the order
  of passages with equal scores: the code reverses the ascending order of \<^verbatim>\<open>np.argsort\<close>,
  so with the stable order the higher index comes first, as the counterexample below shows
  on two identical passages, where the claim has the lower index first.
\<close>

theorem retrieve_top_k:
  assumes fit: "fitted self = Some corpus"
    and len: "length (passages self) = length corpus"
    and sims: "similarities = map (cosine lib corpus (preprocess_text query)) [0..<length corpus]"
    and spec: "argsort_spec similarities (argsort lib similarities)"
    and k: "1 \<le> k"
  shows "retrieve lib self query k =
           Inr (map (\<lambda>i. \<lparr>passage = passages self ! i, score = similarities ! i\<rparr>)
                  (top_k_indices lib similarities k)) \<and>
         length (top_k_indices lib similarities k) = min (nat k) (length (passages self)) \<and>
         distinct (top_k_indices lib similarities k) \<and>
         set (top_k_indices lib similarities k) \<subseteq> {0..<length (passages self)} \<and>
         sorted (rev (map (\<lambda>i. similarities ! i) (top_k_indices lib similarities k))) \<and>
         (\<forall>i\<in>set (top_k_indices lib similarities k). \<forall>j<length (passages self).
            j \<notin> set (top_k_indices lib similarities k) \<longrightarrow> similarities ! j \<le> similarities ! i)"
proof -
  define order where "order = argsort lib similarities"
  define n where "n = length (passages self)"
  define m where "m = n - nat k"
  have nlen: "length similarities = n" by (simp add: sims len n_def)
  have srt: "sorted (map (\<lambda>i. similarities ! i) order)" and dist: "distinct order"
    and st: "set order = {0..<n}"
    using spec nlen by (simp_all add: argsort_spec_def order_def)
  have olen: "length order = n" using argsort_spec_length[OF spec] nlen by (simp add: order_def)
  have top: "top_k_indices lib similarities k = rev (drop m order)"
    using k olen by (simp add: top_k_indices_def slice_from_tail order_def m_def)
  have sub: "set (drop m order) \<subseteq> {0..<n}" using st set_drop_subset[of m order] by blast
  have 1: "retrieve lib self query k =
      Inr (map (\<lambda>i. \<lparr>passage = passages self ! i, score = similarities ! i\<rparr>)
             (top_k_indices lib similarities k))"
    using sub fit by (simp add: retrieve_def sims[symmetric] top n_def collect_results_ok subset_iff)
  have 2: "length (top_k_indices lib similarities k) = min (nat k) n"
    using olen k by (auto simp: top m_def)
  have 3: "distinct (top_k_indices lib similarities k)" using dist by (simp add: top)
  have 4: "set (top_k_indices lib similarities k) \<subseteq> {0..<n}" using sub by (simp add: top)
  have 5: "sorted (rev (map (\<lambda>i. similarities ! i) (top_k_indices lib similarities k)))"
    using srt sorted_wrt_drop[of "(\<le>)" "map (\<lambda>i. similarities ! i) order" m]
    by (simp add: top rev_map drop_map)
  have 6: "similarities ! j \<le> similarities ! i"
    if i: "i \<in> set (top_k_indices lib similarities k)" and j: "j < n"
      and nj: "j \<notin> set (top_k_indices lib similarities k)" for i j
  proof -
    have "j \<in> set order" using j st by simp
    then have "j \<in> set (take m order)" using nj set_append[of "take m order" "drop m order"]
      by (simp add: top)
    moreover have "i \<in> set (drop m order)" using i by (simp add: top)
    moreover have "sorted (map (\<lambda>i. similarities ! i) (take m order @ drop m order))"
      using srt by simp
    ultimately show ?thesis unfolding map_append sorted_append by auto
  qed
  show ?thesis using 1 2 3 4 5 6 unfolding n_def by blast
qed


theorem retrieve_top_k_witness:
  "retrieve (fixed_scores_library [1 / 2, 1 / 2]) two_passage_index ''alpha'' 5
     = Inr [\<lparr>passage = passage_b, score = 1 / 2\<rparr>, \<lparr>passage = passage_a, score = 1 / 2\<rparr>]"
proof -
  let ?L = "fixed_scores_library [1 / 2, 1 / 2]"
  have a: "fitted two_passage_index = Some [''alpha beta'', ''alpha beta'']"
    and b: "length (passages two_passage_index) = length [''alpha beta'', ''alpha beta'']"
    by (simp_all add: two_passage_index_def)
  have c: "[1 / 2, 1 / 2] = map (cosine ?L [''alpha beta'', ''alpha beta''] (preprocess_text ''alpha''))
             [0..<length [''alpha beta'', ''alpha beta'']]"
    by (simp add: fixed_cosine)
  have d: "argsort_spec [1 / 2, 1 / 2] (argsort ?L [1 / 2, 1 / 2])"
    by (simp add: fixed_scores_library_def stable_argsort_spec)
  have t: "top_k_indices ?L [1 / 2, 1 / 2] 5 = [1, 0]"
    by (simp add: top_k_indices_def fixed_scores_library_def stable_argsort_tie slice_from_def)
  show ?thesis
    using retrieve_top_k[OF a b c d, of 5] by (simp add: t two_passage_index_def)
qed

theorem retrieve_tie_counterexample:
  "retrieve (fixed_scores_library [1 / 2, 1 / 2]) two_passage_index ''alpha'' 1
     = Inr [\<lparr>passage = passage_b, score = 1 / 2\<rparr>] \<and>
   spec_retrieve (passages two_passage_index) [1 / 2, 1 / 2] 1
     = [\<lparr>passage = passage_a, score = 1 / 2\<rparr>] \<and>
   passage_a \<noteq> passage_b \<and>
   argsort_spec [1 / 2, 1 / 2] (argsort (fixed_scores_library [1 / 2, 1 / 2]) [1 / 2, 1 / 2])"
proof -
  let ?L = "fixed_scores_library [1 / 2, 1 / 2]"
  have t: "top_k_indices ?L [1 / 2, 1 / 2] 1 = [1]"
    by (simp add: top_k_indices_def fixed_scores_library_def stable_argsort_tie slice_from_def)
  have r: "retrieve ?L two_passage_index ''alpha'' 1 = Inr [\<lparr>passage = passage_b, score = 1 / 2\<rparr>]"
    by (simp add: retrieve_def two_passage_index_def fixed_cosine t)
  have s: "spec_retrieve (passages two_passage_index) [1 / 2, 1 / 2] 1
             = [\<lparr>passage = passage_a, score = 1 / 2\<rparr>]"
    by (simp add: spec_retrieve_def spec_ranking_def two_passage_index_def upt_rec)
  have n: "passage_a \<noteq> passage_b" by (simp add: passage_a_def passage_b_def)
  have d: "argsort_spec [1 / 2, 1 / 2] (argsort ?L [1 / 2, 1 / 2])"
    by (simp add: fixed_scores_library_def stable_argsort_spec)
  show ?thesis using r s n d by blast
qed

text \<open>
  Claim C2. The claim has an empty result for \<open>k \<le> 0\<close>. The slice \<^verbatim>\<open>[-k:]\<close> does not give
  that: for \<open>k = 0\<close> it is the whole array, and for \<open>k < 0\<close> it drops the \<open>- k\<close> lowest
  scores only. On a fitted index of \<open>n\<close> passages retrieval returns \<open>n - (- k)\<close> results
  (none only when \<open>- k \<ge> n\<close>).
\<close>

theorem retrieve_nonpositive_k:
  assumes fit: "fitted self = Some corpus"
    and len: "length (passages self) = length corpus"
    and sims: "similarities = map (cosine lib corpus (preprocess_text query)) [0..<length corpus]"
    and spec: "argsort_spec similarities (argsort lib similarities)"
    and k: "k \<le> 0"
  shows "\<exists>results. retrieve lib self query k = Inr results \<and>
           length results = length (passages self) - nat (- k)"
proof -
  define order where "order = argsort lib similarities"
  have nlen: "length similarities = length (passages self)" by (simp add: sims len)
  have st: "set order = {0..<length (passages self)}"
    using spec nlen by (simp add: argsort_spec_def order_def)
  have olen: "length order = length (passages self)"
    using argsort_spec_length[OF spec] nlen by (simp add: order_def)
  have top: "top_k_indices lib similarities k = rev (drop (nat (- k)) order)"
    using k by (simp add: top_k_indices_def slice_from_head order_def)
  have sub: "set (drop (nat (- k)) order) \<subseteq> {0..<length (passages self)}"
    using st set_drop_subset[of "nat (- k)" order] by blast
  have "retrieve lib self query k =
      Inr (map (\<lambda>i. \<lparr>passage = passages self ! i, score = similarities ! i\<rparr>)
             (top_k_indices lib similarities k))"
    using sub fit by (simp add: retrieve_def sims[symmetric] top collect_results_ok subset_iff)
  moreover have "length (top_k_indices lib similarities k) = length (passages self) - nat (- k)"
    using olen by (simp add: top)
  ultimately show ?thesis by simp
qed

theorem retrieve_nonpositive_k_witness:
  "(\<exists>results. retrieve (fixed_scores_library [1 / 2, 1 / 2]) two_passage_index ''alpha'' 0
       = Inr results \<and> length results = 2) \<and>
   retrieve (fixed_scores_library [1 / 2, 1 / 2]) two_passage_index ''alpha'' 0
     = Inr [\<lparr>passage = passage_b, score = 1 / 2\<rparr>, \<lparr>passage = passage_a, score = 1 / 2\<rparr>]"
proof -
  let ?L = "fixed_scores_library [1 / 2, 1 / 2]"
  have a: "fitted two_passage_index = Some [''alpha beta'', ''alpha beta'']"
    and b: "length (passages two_passage_index) = length [''alpha beta'', ''alpha beta'']"
    by (simp_all add: two_passage_index_def)
  have c: "[1 / 2, 1 / 2] = map (cosine ?L [''alpha beta'', ''alpha beta''] (preprocess_text ''alpha''))
             [0..<length [''alpha beta'', ''alpha beta'']]"
    by (simp add: fixed_cosine)
  have d: "argsort_spec [1 / 2, 1 / 2] (argsort ?L [1 / 2, 1 / 2])"
    by (simp add: fixed_scores_library_def stable_argsort_spec)
  have t: "top_k_indices ?L [1 / 2, 1 / 2] 0 = [1, 0]"
    by (simp add: top_k_indices_def fixed_scores_library_def stable_argsort_tie slice_from_def)
  have r: "retrieve ?L two_passage_index ''alpha'' 0
     = Inr [\<lparr>passage = passage_b, score = 1 / 2\<rparr>, \<lparr>passage = passage_a, score = 1 / 2\<rparr>]"
    by (simp add: retrieve_def two_passage_index_def fixed_cosine t)
  have "\<exists>results. retrieve ?L two_passage_index ''alpha'' 0 = Inr results \<and> length results = 2"
    using retrieve_nonpositive_k[OF a b c d, of 0]
    by (simp add: two_passage_index_def numeral_2_eq_2)
  with r show ?thesis by blast
qed

text \<open>
  Claim C3. The claim has retrieval return an empty result when no passage was indexed. On
  the system as constructed, with no document ingested, \<^verbatim>\<open>index_passages\<close> returns early
  and leaves the vectorizer unfitted; retrieval then raises \<^verbatim>\<open>NotFittedError\<close>, and so does
  \<^verbatim>\<open>answer_query\<close>, for every query and \<open>k\<close>.
\<close>

theorem retrieve_without_passages_raises:
  "index_passages lib (init_rag_system m) = Inr (init_rag_system m) \<and>
   retrieve lib (init_rag_system m) query k = Inl NotFittedError \<and>
   answer_query lib (init_rag_system m) query k = Inl NotFittedError"
  by (simp add: index_passages_def retrieve_def answer_query_def init_rag_system_def)

end
